theory Spec2Isabelle
  imports Main "HOL-Library.Multiset"
begin

section \<open>Python built-ins used by \<open>split_mrc\<close>\<close>

text \<open>
  Text is modelled as \<^typ>\<open>string\<close>: a list of characters with code points below 256.
  The files are read with \<open>f.readlines()\<close>; a file is given by the list of its lines,
  each line keeping its final newline when it has one.
\<close>

subsection \<open>Character classes\<close>

definition is_digit :: "char \<Rightarrow> bool" where
  "is_digit c = (c \<in> set ''0123456789'')"

text \<open>\<open>str.isspace\<close> on code points below 256: tab, newline, vertical tab, form feed,
  carriage return, the separators 0x1C..0x1F, space, NEL (0x85) and no-break space (0xA0).\<close>

definition is_space :: "char \<Rightarrow> bool" where
  "is_space c = (of_char c \<in> set [9, 10, 11, 12, 13, 28, 29, 30, 31, 32, 133, 160 :: nat])"

definition strip :: "string \<Rightarrow> string" where
  "strip s = rev (dropWhile is_space (rev (dropWhile is_space s)))"

definition digit_val :: "char \<Rightarrow> int" where
  "digit_val c = int (of_char c) - 48"

definition digit_char :: "int \<Rightarrow> char" where
  "digit_char d = ''0123456789'' ! nat d"

definition lower :: "char \<Rightarrow> char" where
  "lower c = (case map_of (zip ''ABCDEFGHIJKLMNOPQRSTUVWXYZ'' ''abcdefghijklmnopqrstuvwxyz'') c of
                Some l \<Rightarrow> l | None \<Rightarrow> c)"

subsection \<open>Floats\<close>

text \<open>
  A Python float is an IEEE 754 binary64 value. \<open>Finite m e\<close> stands for the number
  \<open>m * 2 ^ e\<close>, kept in the form where \<open>m\<close> is odd, or \<open>m = 0\<close> and \<open>e = 0\<close>
  (positive zero), so that two finite values are the same number exactly when they are
  the same term. Negative zero, the infinities and NaN are values of their own.
\<close>

datatype pyfloat = Finite int int | NegZero | PosInf | NegInf | NaN

text \<open>\<open>bitlen n\<close>: the number of binary digits of a positive \<open>n\<close>; \<open>declen n\<close>: of decimal digits.\<close>

function bitlen :: "int \<Rightarrow> int" where
  "bitlen n = (if n \<le> 0 then 0 else 1 + bitlen (n div 2))"
  by pat_completeness auto
termination
  by (relation "measure nat") auto

function declen :: "int \<Rightarrow> int" where
  "declen n = (if n \<le> 0 then 0 else 1 + declen (n div 10))"
  by pat_completeness auto
termination
  by (relation "measure nat") auto

function normalize_float :: "int \<Rightarrow> int \<Rightarrow> pyfloat" where
  "normalize_float m e =
     (if m = 0 then Finite 0 0
      else if even m then normalize_float (m div 2) (e + 1)
      else Finite m e)"
  by pat_completeness auto
termination
  by (relation "measure (\<lambda>(m, e). nat \<bar>m\<bar>)") auto

text \<open>Rounding the quotient \<open>num / den\<close> (\<open>0 \<le> num\<close>, \<open>0 < den\<close>) to the nearest integer,
  a tie going to the even one.\<close>

definition round_half_even :: "int \<Rightarrow> int \<Rightarrow> int" where
  "round_half_even num den =
     (let q = num div den; r = num mod den
      in if 2 * r < den then q
         else if den < 2 * r then q + 1
         else if even q then q else q + 1)"

definition signed_zero :: "bool \<Rightarrow> pyfloat" where
  "signed_zero neg = (if neg then NegZero else Finite 0 0)"

definition signed_inf :: "bool \<Rightarrow> pyfloat" where
  "signed_inf neg = (if neg then NegInf else PosInf)"

text \<open>
  \<open>nearest_double neg n d\<close>: the binary64 value nearest to the fraction \<open>n / d\<close>
  (\<open>0 \<le> n\<close>, \<open>0 < d\<close>) with the sign \<open>neg\<close>, ties to even: 53 significant bits, the
  spacing never below \<open>2 ^ -1074\<close> (subnormal numbers), infinity from \<open>2 ^ 1024\<close> on.
  This is the conversion of a decimal text to a float (\<open>strtod\<close>).
\<close>

definition nearest_double :: "bool \<Rightarrow> int \<Rightarrow> int \<Rightarrow> pyfloat" where
  "nearest_double neg n d =
     (if n = 0 then signed_zero neg
      else
        let e0 = bitlen n - bitlen d;
            e = (if (if 0 \<le> e0 then d * 2 ^ nat e0 \<le> n else d \<le> n * 2 ^ nat (- e0))
                 then e0 else e0 - 1);
            p = max (e - 52) (- 1074);
            m = (if 0 \<le> p then round_half_even n (d * 2 ^ nat p)
                 else round_half_even (n * 2 ^ nat (- p)) d)
        in if m = 0 then signed_zero neg
           else if 1024 < bitlen m + p then signed_inf neg
           else normalize_float (if neg then - m else m) p)"

declare bitlen.simps [simp del] declen.simps [simp del] normalize_float.simps [simp del]

text \<open>
  \<open>float(s)\<close> on a string. The grammar, after surrounding whitespace is dropped:
  an optional sign, then \<open>inf\<close>, \<open>infinity\<close> or \<open>nan\<close> in any case, or a decimal number
  \<open>digits [. [digits]] | . digits\<close> with an optional exponent \<open>e [sign] digits\<close>, where
  a run of digits may hold single underscores between two digits. \<open>None\<close> stands for
  the \<open>ValueError\<close> that \<open>float\<close> raises on any other text.
\<close>

fun digits_more :: "string \<Rightarrow> string \<times> string" where
  "digits_more [] = ([], [])"
| "digits_more (c # cs) =
     (if is_digit c then (case digits_more cs of (ds, r) \<Rightarrow> (c # ds, r))
      else if c = CHR ''_'' \<and> cs \<noteq> [] \<and> is_digit (hd cs)
        then (case digits_more (tl cs) of (ds, r) \<Rightarrow> (hd cs # ds, r))
      else ([], c # cs))"

definition digitpart :: "string \<Rightarrow> (string \<times> string) option" where
  "digitpart s =
     (case s of
        [] \<Rightarrow> None
      | c # cs \<Rightarrow> if is_digit c then (case digits_more cs of (ds, r) \<Rightarrow> Some (c # ds, r)) else None)"

definition digits_val :: "string \<Rightarrow> int" where
  "digits_val ds = foldl (\<lambda>a c. 10 * a + digit_val c) 0 ds"

definition take_sign :: "string \<Rightarrow> bool \<times> string" where
  "take_sign s =
     (case s of
        [] \<Rightarrow> (False, [])
      | c # cs \<Rightarrow> if c = CHR ''-'' then (True, cs) else if c = CHR ''+'' then (False, cs) else (False, s))"

definition mantissa :: "string \<Rightarrow> (string \<times> string \<times> string) option" where
  "mantissa u =
     (case digitpart u of
        Some (ip, r) \<Rightarrow>
          (case r of
             [] \<Rightarrow> Some (ip, [], [])
           | c # r' \<Rightarrow>
               if c = CHR ''.'' then
                 (case digitpart r' of
                    Some (fp, r'') \<Rightarrow> Some (ip, fp, r'')
                  | None \<Rightarrow> Some (ip, [], r'))
               else Some (ip, [], r))
      | None \<Rightarrow>
          (case u of
             [] \<Rightarrow> None
           | c # r' \<Rightarrow>
               if c = CHR ''.'' then
                 (case digitpart r' of
                    Some (fp, r'') \<Rightarrow> Some ([], fp, r'')
                  | None \<Rightarrow> None)
               else None))"

definition exponent :: "string \<Rightarrow> int option" where
  "exponent r =
     (case r of
        [] \<Rightarrow> Some 0
      | c # r' \<Rightarrow>
          if c = CHR ''e'' \<or> c = CHR ''E'' then
            (case take_sign r' of
               (neg, r'') \<Rightarrow>
                 (case digitpart r'' of
                    Some (ds, rest) \<Rightarrow>
                      if rest = [] then Some (if neg then - digits_val ds else digits_val ds)
                      else None
                  | None \<Rightarrow> None))
          else None)"

definition decimal_value :: "bool \<Rightarrow> int \<Rightarrow> int \<Rightarrow> pyfloat" where
  "decimal_value neg D k =
     (if 0 \<le> k then nearest_double neg (D * 10 ^ nat k) 1
      else nearest_double neg D (10 ^ nat (- k)))"

definition py_float :: "string \<Rightarrow> pyfloat option" where
  "py_float s =
     (case take_sign (strip s) of
        (neg, u) \<Rightarrow>
          if map lower u = ''inf'' \<or> map lower u = ''infinity'' then Some (signed_inf neg)
          else if map lower u = ''nan'' then Some NaN
          else
            (case mantissa u of
               None \<Rightarrow> None
             | Some (ip, fp, r) \<Rightarrow>
                 (case exponent r of
                    None \<Rightarrow> None
                  | Some ex \<Rightarrow>
                      Some (decimal_value neg (digits_val (ip @ fp)) (ex - int (length fp))))))"

text \<open>
  \<open>round(x, 1)\<close>: the exact value of \<open>x\<close> is rounded to a whole number of tenths, a tie
  going to the even one, and the float nearest to that decimal is returned. Zeros,
  infinities and NaN are returned as they are; a negative value that rounds to zero
  gives negative zero. It never raises.
\<close>

definition round1 :: "pyfloat \<Rightarrow> pyfloat" where
  "round1 x =
     (case x of
        Finite m e \<Rightarrow>
          nearest_double (m < 0)
            (if 0 \<le> e then \<bar>m\<bar> * 2 ^ nat e * 10 else round_half_even (\<bar>m\<bar> * 10) (2 ^ nat (- e)))
            10
      | _ \<Rightarrow> x)"

text \<open>\<open>a == b\<close> on floats: NaN equals nothing, the two zeros are equal.\<close>

definition py_eq :: "pyfloat \<Rightarrow> pyfloat \<Rightarrow> bool" where
  "py_eq a b =
     (a \<noteq> NaN \<and> b \<noteq> NaN \<and>
      (a = b \<or> (a = NegZero \<and> b = Finite 0 0) \<or> (a = Finite 0 0 \<and> b = NegZero)))"

subsection \<open>Printing numbers\<close>

text \<open>The decimal digits of a non-negative integer.\<close>

function dec_digits :: "int \<Rightarrow> string" where
  "dec_digits n = (if n < 10 then [digit_char n] else dec_digits (n div 10) @ [digit_char (n mod 10)])"
  by pat_completeness auto
termination
  by (relation "measure nat") auto

declare dec_digits.simps [simp del]

text \<open>\<open>f'{order_idx:03}'\<close>: the decimal digits, filled with zeros on the left to three
  characters. The index is never negative.\<close>

definition pad3 :: "nat \<Rightarrow> string" where
  "pad3 n = (let ds = dec_digits (int n) in replicate (3 - length ds) CHR ''0'' @ ds)"

text \<open>
  \<open>repr\<close> of a float, which is also what an f-string prints for it: the shortest run of
  decimal digits that converts back to the same float, the nearest to the value among
  those of that length. \<open>dec_exp n d\<close> is the \<open>t\<close> with \<open>10 ^ t \<le> n / d < 10 ^ (t + 1)\<close>;
  \<open>repr_try\<close> looks among decimals of \<open>k\<close> digits, where only the two neighbours of the
  value can convert back to it; seventeen digits always do.
\<close>

definition dec_exp :: "int \<Rightarrow> int \<Rightarrow> int" where
  "dec_exp n d =
     (let t0 = declen n - declen d
      in if (if 0 \<le> t0 then d * 10 ^ nat t0 \<le> n else d \<le> n * 10 ^ nat (- t0)) then t0 else t0 - 1)"

definition repr_try :: "int \<Rightarrow> int \<Rightarrow> int \<Rightarrow> int \<Rightarrow> (int \<times> int) option" where
  "repr_try n d t k =
     (let s = t - k + 1;
          num = (if 0 \<le> s then n else n * 10 ^ nat (- s));
          den = (if 0 \<le> s then d * 10 ^ nat s else d);
          lo = num div den;
          r = num mod den;
          back = (\<lambda>D. decimal_value False D s = nearest_double False n d);
          near = (if 2 * r < den \<or> (2 * r = den \<and> even lo) then lo else lo + 1);
          far = (if near = lo then lo + 1 else lo)
      in if r = 0 then Some (lo, s)
         else if back near then Some (near, s)
         else if back far then Some (far, s)
         else None)"

fun repr_search :: "nat \<Rightarrow> int \<Rightarrow> int \<Rightarrow> int \<Rightarrow> int \<Rightarrow> int \<times> int" where
  "repr_search 0 n d t k = (round_half_even n d, 0)"
| "repr_search (Suc fuel) n d t k =
     (case repr_try n d t k of
        Some r \<Rightarrow> r
      | None \<Rightarrow> repr_search fuel n d t (k + 1))"

function strip_zeros :: "int \<Rightarrow> int \<Rightarrow> int \<times> int" where
  "strip_zeros D s = (if D \<noteq> 0 \<and> D mod 10 = 0 then strip_zeros (D div 10) (s + 1) else (D, s))"
  by pat_completeness auto
termination
  by (relation "measure (\<lambda>(D, s). nat \<bar>D\<bar>)") auto

declare strip_zeros.simps [simp del]

text \<open>The digits \<open>ds\<close> with the decimal point after the first \<open>decpt\<close> of them: exponent
  form when \<open>decpt \<le> -4\<close> or \<open>16 < decpt\<close>, otherwise plain, with \<open>.0\<close> after a whole number.\<close>

definition format_repr :: "string \<Rightarrow> int \<Rightarrow> string" where
  "format_repr ds decpt =
     (if decpt \<le> - 4 \<or> 16 < decpt then
        (let ex = decpt - 1;
             es = dec_digits \<bar>ex\<bar>
         in [hd ds] @ (if tl ds = [] then [] else CHR ''.'' # tl ds) @ ''e''
            @ (if ex < 0 then ''-'' else ''+'') @ replicate (2 - length es) CHR ''0'' @ es)
      else if decpt \<le> 0 then ''0.'' @ replicate (nat (- decpt)) CHR ''0'' @ ds
      else if int (length ds) \<le> decpt then ds @ replicate (nat decpt - length ds) CHR ''0'' @ ''.0''
      else take (nat decpt) ds @ ''.'' @ drop (nat decpt) ds)"

definition py_repr :: "pyfloat \<Rightarrow> string" where
  "py_repr x =
     (case x of
        NaN \<Rightarrow> ''nan''
      | PosInf \<Rightarrow> ''inf''
      | NegInf \<Rightarrow> ''-inf''
      | NegZero \<Rightarrow> ''-0.0''
      | Finite m e \<Rightarrow>
          if m = 0 then ''0.0''
          else
            (let n = (if 0 \<le> e then \<bar>m\<bar> * 2 ^ nat e else \<bar>m\<bar>);
                 d = (if 0 \<le> e then 1 else 2 ^ nat (- e));
                 (D, s) = (case repr_search 17 n d (dec_exp n d) 1 of (D0, s0) \<Rightarrow> strip_zeros D0 s0);
                 ds = dec_digits D
             in (if m < 0 then ''-'' else []) @ format_repr ds (int (length ds) + s)))"

subsection \<open>Lists and paths\<close>

text \<open>\<open>xs.index(x)\<close>: the position of the first element equal to \<open>x\<close>; \<open>None\<close> stands for
  the \<open>ValueError\<close> raised when there is none.\<close>

fun list_index :: "pyfloat list \<Rightarrow> pyfloat \<Rightarrow> nat option" where
  "list_index [] x = None"
| "list_index (a # as) x = (if py_eq a x then Some 0 else map_option Suc (list_index as x))"

text \<open>\<open>target_dir / name\<close> for a directory written without a final slash: an absolute
  name replaces the directory, any other name is appended after a slash.\<close>

definition path_join :: "string \<Rightarrow> string \<Rightarrow> string" where
  "path_join dir name =
     (if name \<noteq> [] \<and> hd name = CHR ''/'' then name else dir @ ''/'' @ name)"

section \<open>The regular expressions of \<open>split_mrc\<close>\<close>

text \<open>
  Each of the five patterns is a label followed by \<open>.*?([+-]?\d+\.\d+)\<close>, and only group 1
  of a match is used. A pattern is given here by its label.

  \<open>number_match s\<close> matches \<open>[+-]?\d+\.\d+\<close> at the start of \<open>s\<close> and returns the matched
  text: a sign when there is one, all the digits that follow, a dot, all the digits that
  follow. Taking fewer digits can never help, since the next character is then a digit.
\<close>

definition number_match :: "string \<Rightarrow> string option" where
  "number_match s =
     (let sg = (if s \<noteq> [] \<and> (hd s = CHR ''+'' \<or> hd s = CHR ''-'') then [hd s] else []);
          r = drop (length sg) s;
          d1 = takeWhile is_digit r;
          r1 = dropWhile is_digit r
      in if d1 = [] then None
         else if r1 \<noteq> [] \<and> hd r1 = CHR ''.'' \<and> takeWhile is_digit (tl r1) \<noteq> []
           then Some (sg @ d1 @ ''.'' @ takeWhile is_digit (tl r1))
         else None)"

text \<open>\<open>.*?\<close> followed by the group: the number is looked for at the nearest position
  first, and \<open>.\<close> does not step over a newline.\<close>

fun lazy_number :: "string \<Rightarrow> string option" where
  "lazy_number [] = None"
| "lazy_number (c # cs) =
     (case number_match (c # cs) of
        Some g \<Rightarrow> Some g
      | None \<Rightarrow> if c = CHR 0x0A then None else lazy_number cs)"

definition match_at :: "string \<Rightarrow> string \<Rightarrow> string option" where
  "match_at label s =
     (if take (length label) s = label then lazy_number (drop (length label) s) else None)"

text \<open>\<open>pattern.search(line)\<close>: the match at the leftmost position where there is one;
  the result is \<open>match.group(1)\<close>, and \<open>None\<close> when nothing matches.\<close>

fun re_search :: "string \<Rightarrow> string \<Rightarrow> string option" where
  "re_search label [] = match_at label []"
| "re_search label (c # cs) =
     (case match_at label (c # cs) of
        Some g \<Rightarrow> Some g
      | None \<Rightarrow> re_search label cs)"

definition start_angle_re :: string where "start_angle_re = ''Start tilt angle''"
definition min_angle_re :: string where "min_angle_re = ''Max negative tilt''"
definition max_angle_re :: string where "max_angle_re = ''Max positive tilt''"
definition step_re :: string where "step_re = ''Low tilt step''"
definition step_high_re :: string where "step_high_re = ''High tilt step''"

section \<open>\<open>split_mrc\<close>\<close>

text \<open>
  The exceptions the function can raise before it writes: \<open>ValueError\<close> from \<open>float\<close>,
  \<open>UnboundLocalError\<close> when \<open>start_angle\<close> was never assigned, \<open>ValueError\<close> from
  \<open>angles.index\<close>, and \<open>ZeroDivisionError\<close> from \<open>np.vsplit(mrc.data, 0)\<close>, which computes
  \<open>N % sections\<close>. Errors of reading and writing files are outside the model.
\<close>

datatype error = ValueError_float | UnboundLocalError | ValueError_index | ZeroDivisionError

text \<open>The local variables the first loop assigns; \<open>None\<close> is a variable not yet bound.\<close>

record meta_vars =
  start_angle :: "pyfloat option"
  step :: "pyfloat option"
  step_high :: "pyfloat option"
  min_angle :: "pyfloat option"
  max_angle :: "pyfloat option"

definition unbound :: meta_vars where
  "unbound = \<lparr>start_angle = None, step = None, step_high = None, min_angle = None, max_angle = None\<rparr>"

definition to_float :: "string \<Rightarrow> error + pyfloat" where
  "to_float g = (case py_float g of None \<Rightarrow> Inl ValueError_float | Some v \<Rightarrow> Inr v)"

text \<open>The body of the loop over the lines of the parameters file: the \<open>if\<close>/\<open>elif\<close> chain,
  in the order of the source.\<close>

definition read_meta_line :: "meta_vars \<Rightarrow> string \<Rightarrow> error + meta_vars" where
  "read_meta_line vars line =
     (case re_search start_angle_re line of
        Some g \<Rightarrow> map_sum id (\<lambda>v. vars\<lparr>start_angle := Some v\<rparr>) (to_float g)
      | None \<Rightarrow>
     (case re_search step_re line of
        Some g \<Rightarrow> map_sum id (\<lambda>v. vars\<lparr>step := Some v\<rparr>) (to_float g)
      | None \<Rightarrow>
     (case re_search step_high_re line of
        Some g \<Rightarrow> map_sum id (\<lambda>v. vars\<lparr>step_high := Some v\<rparr>) (to_float g)
      | None \<Rightarrow>
     (case re_search min_angle_re line of
        Some g \<Rightarrow> map_sum id (\<lambda>v. vars\<lparr>min_angle := Some v\<rparr>) (to_float g)
      | None \<Rightarrow>
     (case re_search max_angle_re line of
        Some g \<Rightarrow> map_sum id (\<lambda>v. vars\<lparr>max_angle := Some v\<rparr>) (to_float g)
      | None \<Rightarrow> Inr vars)))))"

fun read_meta :: "meta_vars \<Rightarrow> string list \<Rightarrow> error + meta_vars" where
  "read_meta vars [] = Inr vars"
| "read_meta vars (line # lines) =
     (case read_meta_line vars line of
        Inl e \<Rightarrow> Inl e
      | Inr vars' \<Rightarrow> read_meta vars' lines)"

text \<open>\<open>[round(float(x.strip()), 1) for x in f.readlines()]\<close>: the first line that \<open>float\<close>
  rejects raises.\<close>

fun parse_angles :: "string list \<Rightarrow> error + pyfloat list" where
  "parse_angles [] = Inr []"
| "parse_angles (x # xs) =
     (case to_float (strip x) of
        Inl e \<Rightarrow> Inl e
      | Inr v \<Rightarrow> map_sum id (\<lambda>vs. round1 v # vs) (parse_angles xs))"

text \<open>\<open>[i for i in range(start_idx, len(angles))] + [i for i in range(0, start_idx)]\<close>\<close>

definition order_list :: "nat \<Rightarrow> nat \<Rightarrow> nat list" where
  "order_list start_idx n = [start_idx..<n] @ [0..<start_idx]"

text \<open>One turn of the writing loop: the loop variables and the path of the file created.\<close>

record 'img frame_out =
  order_idx :: nat
  image_arr :: 'img
  angle :: pyfloat
  filepath :: string

definition file_name :: "string \<Rightarrow> nat \<Rightarrow> pyfloat \<Rightarrow> string" where
  "file_name tilt_series_basename i a =
     tilt_series_basename @ ''_'' @ pad3 i @ ''['' @ py_repr a @ '']_fractions.mrc''"

definition write_frame :: "string \<Rightarrow> string \<Rightarrow> nat \<times> 'img \<times> pyfloat \<Rightarrow> 'img frame_out" where
  "write_frame tilt_series_basename target_dir t =
     (case t of (i, im, a) \<Rightarrow>
        \<lparr>order_idx = i, image_arr = im, angle = a,
         filepath = path_join target_dir (file_name tilt_series_basename i a)\<rparr>)"

text \<open>
  \<open>split_mrc\<close>. The stack is given as \<open>mrc_data\<close>, the list of the slices of \<open>mrc.data\<close>
  along its first axis, which is what \<open>np.vsplit(mrc.data, mrc.data.shape[0])\<close> returns
  when the list is not empty. The two text files are given by their lines. The result
  is \<open>Inl e\<close> when \<open>e\<close> is raised, which can only happen before the first file is created,
  and otherwise \<open>Inr\<close> of the files created, in the order of their creation.
\<close>

definition split_mrc ::
  "'img list \<Rightarrow> string list \<Rightarrow> string list \<Rightarrow> string \<Rightarrow> string \<Rightarrow> error + 'img frame_out list" where
  "split_mrc mrc_data meta_lines tilt_lines tilt_series_basename target_dir =
     (case read_meta unbound meta_lines of
        Inl e \<Rightarrow> Inl e
      | Inr vars \<Rightarrow>
     (case parse_angles tilt_lines of
        Inl e \<Rightarrow> Inl e
      | Inr angles \<Rightarrow>
     (case start_angle vars of
        None \<Rightarrow> Inl UnboundLocalError
      | Some sa \<Rightarrow>
     (case list_index angles sa of
        None \<Rightarrow> Inl ValueError_index
      | Some i \<Rightarrow>
          let start_idx = i + 1;
              order = order_list start_idx (length angles)
          in if mrc_data = [] then Inl ZeroDivisionError
             else Inr (map (write_frame tilt_series_basename target_dir)
                        (zip order (zip mrc_data angles)))))))"

text \<open>The files a call has created.\<close>

definition files_written :: "error + 'img frame_out list \<Rightarrow> 'img frame_out list" where
  "files_written r = (case r of Inl e \<Rightarrow> [] | Inr outs \<Rightarrow> outs)"

section \<open>Notions used to state the properties\<close>

text \<open>The text that a path carries between its last opening bracket and its final
  \<open>]_fractions.mrc\<close>: the angle written into the file name.\<close>

definition embedded_angle :: "string \<Rightarrow> string" where
  "embedded_angle path =
     rev (takeWhile (\<lambda>c. c \<noteq> CHR ''['')
            (rev (take (length path - length '']_fractions.mrc'') path)))"

text \<open>The branch of the \<open>if\<close>/\<open>elif\<close> chain that a line of the parameters file takes: the
  first pattern, in the order of the chain, that matches the line, with its group 1;
  \<open>var_of\<close> is the variable that this branch assigns.\<close>

definition chain :: "string list" where
  "chain = [start_angle_re, step_re, step_high_re, min_angle_re, max_angle_re]"

fun first_match :: "string list \<Rightarrow> string \<Rightarrow> (string \<times> string) option" where
  "first_match [] line = None"
| "first_match (p # ps) line =
     (case re_search p line of
        Some g \<Rightarrow> Some (p, g)
      | None \<Rightarrow> first_match ps line)"

definition branch_taken :: "string \<Rightarrow> (string \<times> string) option" where
  "branch_taken line = first_match chain line"

definition var_of :: "string \<Rightarrow> meta_vars \<Rightarrow> pyfloat option" where
  "var_of p vars =
     (if p = start_angle_re then start_angle vars
      else if p = step_re then step vars
      else if p = step_high_re then step_high vars
      else if p = min_angle_re then min_angle vars
      else max_angle vars)"

section \<open>The canonical order\<close>

lemma upt_split: "k \<le> n \<Longrightarrow> [0..<n] = [0..<k] @ [k..<n]"
  by (metis le_add_diff_inverse upt_add_eq_append zero_le)

lemma mset_order_list: "k \<le> n \<Longrightarrow> mset (order_list k n) = mset [0..<n]"
  unfolding order_list_def using upt_split [of k n] by (simp add: union_commute del: mset_upt)

lemma distinct_order_list: "k \<le> n \<Longrightarrow> distinct (order_list k n)"
  by (auto simp: order_list_def)

lemma length_order_list: "k \<le> n \<Longrightarrow> length (order_list k n) = n"
  by (simp add: order_list_def)



section \<open>Reading the angle list\<close>

lemma parse_angles_Inr:
  "parse_angles ls = Inr vs \<longleftrightarrow> map (\<lambda>l. map_option round1 (py_float (strip l))) ls = map Some vs"
proof (induction ls arbitrary: vs)
  case Nil
  then show ?case by auto
next
  case (Cons l ls)
  show ?case
  proof (cases "py_float (strip l)")
    case None
    then show ?thesis by (cases vs) (auto simp: to_float_def)
  next
    case (Some v)
    show ?thesis
    proof (cases "parse_angles ls")
      case (Inl e)
      then have "\<And>ws. map (\<lambda>l. map_option round1 (py_float (strip l))) ls \<noteq> map Some ws"
        using Cons.IH by (metis sum.distinct(1))
      then show ?thesis using Some Inl by (cases vs) (auto simp: to_float_def)
    next
      case (Inr ws)
      then have "map (\<lambda>l. map_option round1 (py_float (strip l))) ls = map Some ws"
        using Cons.IH by simp
      then show ?thesis using Some Inr by (cases vs) (auto simp: to_float_def)
    qed
  qed
qed

lemma parse_angles_Inl:
  "parse_angles ls = Inl e \<longleftrightarrow> e = ValueError_float \<and> (\<exists>l\<in>set ls. py_float (strip l) = None)"
proof (induction ls)
  case Nil
  then show ?case by simp
next
  case (Cons l ls)
  show ?case
  proof (cases "py_float (strip l)")
    case None
    then show ?thesis by (auto simp: to_float_def)
  next
    case (Some v)
    then show ?thesis using Cons.IH
      by (cases "parse_angles ls") (auto simp: to_float_def)
  qed
qed

lemma parse_angles_length:
  assumes "parse_angles ls = Inr vs"
  shows "length vs = length ls"
proof -
  have "map (\<lambda>l. map_option round1 (py_float (strip l))) ls = map Some vs"
    using assms by (simp add: parse_angles_Inr)
  then have "length (map (\<lambda>l. map_option round1 (py_float (strip l))) ls) = length (map Some vs)"
    by (rule arg_cong)
  then show ?thesis by simp
qed

text \<open>
  C8. The angle list is read one float per line, in the order of the file: the call
  succeeds exactly when \<open>float\<close> accepts every stripped line, and then returns, line by
  line, the value rounded to one decimal place; it raises (the \<open>ValueError\<close> of \<open>float\<close>)
  exactly when some line is not accepted.
\<close>
theorem parse_angles_file_order:
  "(parse_angles ls = Inr vs \<longleftrightarrow>
      map (\<lambda>l. map_option round1 (py_float (strip l))) ls = map Some vs)
   \<and> ((\<exists>e. parse_angles ls = Inl e) \<longleftrightarrow> (\<exists>l\<in>set ls. py_float (strip l) = None))
   \<and> ((\<exists>vs. parse_angles ls = Inr vs) \<longleftrightarrow> (\<forall>l\<in>set ls. \<exists>v. py_float (strip l) = Some v))"
proof -
  have a: "parse_angles ls = Inr vs \<longleftrightarrow>
      map (\<lambda>l. map_option round1 (py_float (strip l))) ls = map Some vs"
    by (rule parse_angles_Inr)
  have b: "(\<exists>e. parse_angles ls = Inl e) \<longleftrightarrow> (\<exists>l\<in>set ls. py_float (strip l) = None)"
    by (simp add: parse_angles_Inl)
  have "(\<exists>vs. parse_angles ls = Inr vs) \<longleftrightarrow> \<not> (\<exists>e. parse_angles ls = Inl e)"
    by (cases "parse_angles ls") auto
  then have c: "(\<exists>vs. parse_angles ls = Inr vs) \<longleftrightarrow> (\<forall>l\<in>set ls. \<exists>v. py_float (strip l) = Some v)"
    unfolding b by auto
  show ?thesis using a b c by blast
qed

theorem parse_angles_file_order_witness:
  "parse_angles [''0.0'' @ [CHR 0x0A], ''  -10.04 '' @ [CHR 0x0A], ''3.45''] = Inr [Finite 0 0, Finite (- 5) 1, Finite 7 (- 1)]
   \<and> map (\<lambda>l. map_option round1 (py_float (strip l))) [''0.0'' @ [CHR 0x0A], ''  -10.04 '' @ [CHR 0x0A], ''3.45'']
       = map Some [Finite 0 0, Finite (- 5) 1, Finite 7 (- 1)]
   \<and> (\<exists>e. parse_angles [''1.5'' @ [CHR 0x0A], ''abc'' @ [CHR 0x0A]] = Inl e)
   \<and> py_float (strip (''abc'' @ [CHR 0x0A])) = None"
proof -
  have 1: "parse_angles [''0.0'' @ [CHR 0x0A], ''  -10.04 '' @ [CHR 0x0A], ''3.45''] = Inr [Finite 0 0, Finite (- 5) 1, Finite 7 (- 1)]"
    by code_simp
  have 2: "py_float (strip (''abc'' @ [CHR 0x0A])) = None"
    by code_simp
  have 3: "\<exists>l\<in>set [''1.5'' @ [CHR 0x0A], ''abc'' @ [CHR 0x0A]]. py_float (strip l) = None"
    using 2 by simp
  show ?thesis
    using 1 2 3
      parse_angles_file_order [of "[''0.0'' @ [CHR 0x0A], ''  -10.04 '' @ [CHR 0x0A], ''3.45'']" "[Finite 0 0, Finite (- 5) 1, Finite 7 (- 1)]"]
      parse_angles_file_order [of "[''1.5'' @ [CHR 0x0A], ''abc'' @ [CHR 0x0A]]" "[]"]
    by blast
qed

section \<open>The regular expressions and \<open>float\<close>\<close>

lemma number_match_shape:
  assumes "number_match s = Some g"
  shows "\<exists>sg d1 d2 rest. s = g @ rest \<and> g = sg @ d1 @ ''.'' @ d2
           \<and> (sg = [] \<or> sg = ''+'' \<or> sg = ''-'')
           \<and> d1 \<noteq> [] \<and> d2 \<noteq> [] \<and> (\<forall>c\<in>set d1. is_digit c) \<and> (\<forall>c\<in>set d2. is_digit c)"
proof -
  define sg where "sg = (if s \<noteq> [] \<and> (hd s = CHR ''+'' \<or> hd s = CHR ''-'') then [hd s] else [])"
  define r where "r = drop (length sg) s"
  define d1 where "d1 = takeWhile is_digit r"
  define r1 where "r1 = dropWhile is_digit r"
  define d2 where "d2 = takeWhile is_digit (tl r1)"
  have nm: "number_match s =
      (if d1 = [] then None
       else if r1 \<noteq> [] \<and> hd r1 = CHR ''.'' \<and> d2 \<noteq> [] then Some (sg @ d1 @ ''.'' @ d2) else None)"
    unfolding number_match_def sg_def r_def d1_def r1_def d2_def Let_def by simp
  from assms nm have d1: "d1 \<noteq> []" and r1: "r1 \<noteq> []" "hd r1 = CHR ''.''" and d2: "d2 \<noteq> []"
    and g: "g = sg @ d1 @ ''.'' @ d2"
    by (auto split: if_splits)
  have s1: "s = sg @ r"
    unfolding r_def sg_def by (cases s) auto
  have s2: "r = d1 @ r1"
    unfolding d1_def r1_def by simp
  have s3: "r1 = CHR ''.'' # tl r1"
    using r1 by (cases r1) auto
  have s4: "tl r1 = d2 @ dropWhile is_digit (tl r1)"
    unfolding d2_def by simp
  have "s = g @ dropWhile is_digit (tl r1)"
    using s1 s2 s3 s4 g by (metis append.assoc append_Cons append_Nil)
  moreover have "sg = [] \<or> sg = ''+'' \<or> sg = ''-''"
    unfolding sg_def by auto
  moreover have "\<forall>c\<in>set d1. is_digit c"
    unfolding d1_def by (auto dest: set_takeWhileD)
  moreover have "\<forall>c\<in>set d2. is_digit c"
    unfolding d2_def by (auto dest: set_takeWhileD)
  ultimately show ?thesis using g d1 d2 by blast
qed

lemma lazy_number_shape:
  "lazy_number s = Some g \<Longrightarrow> \<exists>pre rest. s = pre @ g @ rest \<and> number_match (g @ rest) = Some g"
proof (induction s)
  case Nil
  then show ?case by simp
next
  case (Cons c cs)
  show ?case
  proof (cases "number_match (c # cs)")
    case (Some h)
    with Cons.prems have "h = g" by simp
    with Some obtain rest where "c # cs = g @ rest"
      using number_match_shape by blast
    with Some \<open>h = g\<close> show ?thesis by (metis append_Nil)
  next
    case None
    with Cons.prems have "lazy_number cs = Some g" by (auto split: if_splits)
    then obtain pre rest where "cs = pre @ g @ rest \<and> number_match (g @ rest) = Some g"
      using Cons.IH by blast
    then show ?thesis by (metis append_Cons)
  qed
qed

lemma match_at_shape:
  assumes "match_at label s = Some g"
  shows "\<exists>mid rest. s = label @ mid @ g @ rest \<and> number_match (g @ rest) = Some g"
proof -
  from assms have t: "take (length label) s = label"
    and l: "lazy_number (drop (length label) s) = Some g"
    by (auto simp: match_at_def split: if_splits)
  from l obtain mid rest where "drop (length label) s = mid @ g @ rest"
    and nm: "number_match (g @ rest) = Some g"
    using lazy_number_shape by blast
  with t have "s = label @ mid @ g @ rest"
    by (metis append_take_drop_id)
  with nm show ?thesis by blast
qed

lemma re_search_shape:
  "re_search label s = Some g \<Longrightarrow>
     \<exists>pre mid rest. s = pre @ label @ mid @ g @ rest \<and> number_match (g @ rest) = Some g"
proof (induction s)
  case Nil
  then show ?case using match_at_shape [of label "[]" g] by (metis append_Nil re_search.simps(1))
next
  case (Cons c cs)
  show ?case
  proof (cases "match_at label (c # cs)")
    case (Some h)
    with Cons.prems have "match_at label (c # cs) = Some g" by simp
    then show ?thesis using match_at_shape by (metis append_Nil)
  next
    case None
    with Cons.prems have "re_search label cs = Some g" by simp
    then obtain pre mid rest where "cs = pre @ label @ mid @ g @ rest"
      and "number_match (g @ rest) = Some g"
      using Cons.IH by blast
    then show ?thesis by (metis append_Cons)
  qed
qed

lemma digit_cases:
  "is_digit c \<longleftrightarrow> c = CHR ''0'' \<or> c = CHR ''1'' \<or> c = CHR ''2'' \<or> c = CHR ''3'' \<or> c = CHR ''4''
     \<or> c = CHR ''5'' \<or> c = CHR ''6'' \<or> c = CHR ''7'' \<or> c = CHR ''8'' \<or> c = CHR ''9''"
  by (auto simp: is_digit_def)

lemma lower_other:
  assumes "c \<notin> set ''ABCDEFGHIJKLMNOPQRSTUVWXYZ''"
  shows "lower c = c"
proof -
  have "map_of (zip ''ABCDEFGHIJKLMNOPQRSTUVWXYZ'' ''abcdefghijklmnopqrstuvwxyz'') c = None"
    using assms by (subst map_of_zip_is_None) simp_all
  then show ?thesis by (simp only: lower_def option.case)
qed

lemma digit_not_upper: "is_digit c \<Longrightarrow> c \<notin> set ''ABCDEFGHIJKLMNOPQRSTUVWXYZ''"
  unfolding digit_cases by auto

lemma digit_lower: "is_digit c \<Longrightarrow> lower c = c"
  by (rule lower_other) (rule digit_not_upper)

lemma digit_not_space: "is_digit c \<Longrightarrow> \<not> is_space c"
  unfolding digit_cases by (auto simp: is_space_def)

lemma digit_other:
  "is_digit c \<Longrightarrow> c \<noteq> CHR ''-'' \<and> c \<noteq> CHR ''+'' \<and> c \<noteq> CHR ''.'' \<and> c \<noteq> CHR ''_''
     \<and> c \<noteq> CHR ''i'' \<and> c \<noteq> CHR ''n''"
  unfolding digit_cases by auto


lemma digits_more_run:
  assumes "\<forall>c\<in>set ds. is_digit c" and "r = [] \<or> (\<not> is_digit (hd r) \<and> hd r \<noteq> CHR ''_'')"
  shows "digits_more (ds @ r) = (ds, r)"
  using assms
proof (induction ds)
  case Nil
  then show ?case by (cases r) auto
next
  case (Cons d ds)
  then show ?case by simp
qed

lemma digitpart_run:
  assumes "ds \<noteq> []" and "\<forall>c\<in>set ds. is_digit c"
    and "r = [] \<or> (\<not> is_digit (hd r) \<and> hd r \<noteq> CHR ''_'')"
  shows "digitpart (ds @ r) = Some (ds, r)"
proof -
  obtain d ds' where ds: "ds = d # ds'" using assms(1) by (cases ds) auto
  have "digits_more (ds' @ r) = (ds', r)"
    using assms(2,3) ds by (intro digits_more_run) auto
  then show ?thesis using assms(2) ds by (simp add: digitpart_def)
qed

lemma strip_id:
  assumes "s \<noteq> []" and "\<not> is_space (hd s)" and "\<not> is_space (last s)"
  shows "strip s = s"
proof -
  have a: "dropWhile is_space s = s"
    using assms(1,2) by (cases s) auto
  obtain xs x where s: "s = xs @ [x]"
    using assms(1) by (cases s rule: rev_cases) auto
  have b: "dropWhile is_space (rev s) = rev s"
    using assms(3) unfolding s by simp
  show ?thesis unfolding strip_def a b by simp
qed

lemma mantissa_decimal:
  assumes "d1 \<noteq> []" "d2 \<noteq> []" "\<forall>c\<in>set d1. is_digit c" "\<forall>c\<in>set d2. is_digit c"
  shows "mantissa (d1 @ ''.'' @ d2) = Some (d1, d2, [])"
proof -
  have a: "digitpart (d1 @ ''.'' @ d2) = Some (d1, ''.'' @ d2)"
    using assms by (intro digitpart_run) (auto simp: is_digit_def)
  have b: "digitpart d2 = Some (d2, [])"
    using digitpart_run [of d2 "[]"] assms by simp
  show ?thesis unfolding mantissa_def a using b by simp
qed

lemma py_float_decimal:
  assumes "g = sg @ d1 @ ''.'' @ d2" and "sg = [] \<or> sg = ''+'' \<or> sg = ''-''"
    and "d1 \<noteq> []" "d2 \<noteq> []" "\<forall>c\<in>set d1. is_digit c" "\<forall>c\<in>set d2. is_digit c"
  shows "py_float g = Some (decimal_value (sg = ''-'') (digits_val (d1 @ d2)) (- int (length d2)))"
proof -
  let ?u = "d1 @ ''.'' @ d2"
  have hd1: "is_digit (hd d1)" using assms(3,5) by (cases d1) auto
  have last2: "is_digit (last d2)" using assms(4,6) by (cases d2 rule: rev_cases) auto
  have sgn: "\<not> is_space CHR ''+''" "\<not> is_space CHR ''-''"
    by (simp_all add: is_space_def)
  have hdg: "\<not> is_space (hd g)"
  proof -
    from assms(2) consider "sg = []" | "sg = ''+''" | "sg = ''-''" by blast
    then show ?thesis
    proof cases
      case 1
      then have "hd g = hd d1" using assms(1,3) by simp
      then show ?thesis using hd1 by (simp add: digit_not_space)
    next
      case 2
      then show ?thesis using assms(1) sgn by simp
    next
      case 3
      then show ?thesis using assms(1) sgn by simp
    qed
  qed
  have lastg: "\<not> is_space (last g)"
    using assms(1,4) last2 by (simp add: digit_not_space)
  have g_ne: "g \<noteq> []" using assms(1,3) by simp
  have st: "strip g = g" using g_ne hdg lastg by (rule strip_id)
  have hdu: "hd ?u = hd d1" using assms(3) by simp
  have u: "take_sign ?u = (False, ?u)"
  proof -
    obtain d ds where d1: "d1 = d # ds" using assms(3) by (cases d1) auto
    have "d \<noteq> CHR ''-''" "d \<noteq> CHR ''+''"
      using hd1 digit_other [of d] unfolding d1 by auto
    then show ?thesis unfolding d1 by (simp add: take_sign_def)
  qed
  have ts: "take_sign g = (sg = ''-'', ?u)"
  proof -
    from assms(2) consider "sg = []" | "sg = ''+''" | "sg = ''-''" by blast
    then show ?thesis
    proof cases
      case 1
      then have "g = ?u" using assms(1) by simp
      then show ?thesis using u 1 by simp
    next
      case 2
      then have "g = CHR ''+'' # ?u" using assms(1) by simp
      then show ?thesis using 2 by (simp add: take_sign_def)
    next
      case 3
      then have "g = CHR ''-'' # ?u" using assms(1) by simp
      then show ?thesis using 3 by (simp add: take_sign_def)
    qed
  qed
  have low: "hd (map lower ?u) = hd d1"
    using assms(3) hd1 by (cases d1) (auto simp: digit_lower)
  have ninf: "map lower ?u \<noteq> ''inf''" "map lower ?u \<noteq> ''infinity''" "map lower ?u \<noteq> ''nan''"
  proof -
    show "map lower ?u \<noteq> ''inf''"
    proof
      assume "map lower ?u = ''inf''"
      then have "hd (map lower ?u) = CHR ''i''" by simp
      then show False using low digit_other [OF hd1] by simp
    qed
    show "map lower ?u \<noteq> ''infinity''"
    proof
      assume "map lower ?u = ''infinity''"
      then have "hd (map lower ?u) = CHR ''i''" by simp
      then show False using low digit_other [OF hd1] by simp
    qed
    show "map lower ?u \<noteq> ''nan''"
    proof
      assume "map lower ?u = ''nan''"
      then have "hd (map lower ?u) = CHR ''n''" by simp
      then show False using low digit_other [OF hd1] by simp
    qed
  qed
  have man: "mantissa ?u = Some (d1, d2, [])"
    using assms(3-6) by (rule mantissa_decimal)
  have ex: "exponent [] = Some 0"
    by (simp add: exponent_def)
  have nlow: "\<not> (map lower ?u = ''inf'' \<or> map lower ?u = ''infinity'')"
    using ninf by blast
  have "py_float g = (case (sg = ''-'', ?u) of
        (neg, u) \<Rightarrow>
          if map lower u = ''inf'' \<or> map lower u = ''infinity'' then Some (signed_inf neg)
          else if map lower u = ''nan'' then Some NaN
          else
            (case mantissa u of
               None \<Rightarrow> None
             | Some (ip, fp, r) \<Rightarrow>
                 (case exponent r of
                    None \<Rightarrow> None
                  | Some ex \<Rightarrow>
                      Some (decimal_value neg (digits_val (ip @ fp)) (ex - int (length fp))))))"
    by (simp only: py_float_def st ts)
  also have "\<dots> = (case mantissa ?u of
               None \<Rightarrow> None
             | Some (ip, fp, r) \<Rightarrow>
                 (case exponent r of
                    None \<Rightarrow> None
                  | Some ex \<Rightarrow>
                      Some (decimal_value (sg = ''-'') (digits_val (ip @ fp)) (ex - int (length fp)))))"
    using nlow ninf(3) by (simp only: prod.case if_False)
  also have "\<dots> = Some (decimal_value (sg = ''-'') (digits_val (d1 @ d2)) (0 - int (length d2)))"
    by (simp only: man option.case prod.case ex)
  finally show ?thesis by simp
qed

lemma re_search_float:
  assumes "re_search label line = Some g"
  shows "\<exists>v. to_float g = Inr v"
proof -
  from assms obtain rest where nm: "number_match (g @ rest) = Some g"
    using re_search_shape by blast
  from number_match_shape [OF nm] obtain sg d1 d2 where g: "g = sg @ d1 @ ''.'' @ d2"
    and sg: "sg = [] \<or> sg = ''+'' \<or> sg = ''-''"
    and d: "d1 \<noteq> []" "d2 \<noteq> []" "\<forall>c\<in>set d1. is_digit c" "\<forall>c\<in>set d2. is_digit c"
    by blast
  have "py_float g = Some (decimal_value (sg = ''-'') (digits_val (d1 @ d2)) (- int (length d2)))"
    using g sg d by (rule py_float_decimal)
  then show ?thesis by (simp add: to_float_def)
qed

section \<open>The first loop never raises\<close>

lemma read_meta_line_total: "\<exists>vars'. read_meta_line vars line = Inr vars'"
proof -
  have conv: "\<And>p g f. re_search p line = Some g \<Longrightarrow> \<exists>vars'. map_sum id f (to_float g) = Inr vars'"
    using re_search_float by fastforce
  show ?thesis
    unfolding read_meta_line_def using conv by (auto split: option.splits)
qed

lemma read_meta_total: "\<exists>vars'. read_meta vars lines = Inr vars'"
proof (induction lines arbitrary: vars)
  case Nil
  then show ?case by simp
next
  case (Cons line lines)
  obtain v1 where "read_meta_line vars line = Inr v1"
    using read_meta_line_total by blast
  then show ?case using Cons.IH [of v1] by simp
qed

section \<open>Looking up the pivot\<close>

lemma list_index_Some:
  "list_index xs x = Some i \<longleftrightarrow>
     i < length xs \<and> py_eq (xs ! i) x \<and> (\<forall>j<i. \<not> py_eq (xs ! j) x)"
proof (induction xs arbitrary: i)
  case Nil
  then show ?case by simp
next
  case (Cons a as)
  show ?case
  proof (cases "py_eq a x")
    case True
    then show ?thesis by (cases i) auto
  next
    case False
    show ?thesis
    proof (cases i)
      case 0
      with False show ?thesis by simp
    next
      case (Suc k)
      have "(\<forall>j<Suc k. \<not> py_eq ((a # as) ! j) x) \<longleftrightarrow> (\<forall>j<k. \<not> py_eq (as ! j) x)"
        using False by (auto simp: less_Suc_eq_0_disj)
      then show ?thesis using False Suc Cons.IH [of k] by auto
    qed
  qed
qed

lemma list_index_None: "list_index xs x = None \<longleftrightarrow> (\<forall>a\<in>set xs. \<not> py_eq a x)"
  by (induction xs) auto

lemma list_index_less: "list_index xs x = Some i \<Longrightarrow> i < length xs"
  by (simp add: list_index_Some)

section \<open>What a successful call writes\<close>

lemma split_mrc_Inr:
  "split_mrc mrc_data meta_lines tilt_lines b t = Inr outs \<longleftrightarrow>
     (\<exists>vars angles sa i.
        read_meta unbound meta_lines = Inr vars \<and> parse_angles tilt_lines = Inr angles
        \<and> start_angle vars = Some sa \<and> list_index angles sa = Some i \<and> mrc_data \<noteq> []
        \<and> outs = map (write_frame b t) (zip (order_list (i + 1) (length angles)) (zip mrc_data angles)))"
  by (auto simp: split_mrc_def Let_def split: sum.splits option.splits)

lemma write_frame_fields:
  "order_idx (write_frame b t (i, im, a)) = i"
  "image_arr (write_frame b t (i, im, a)) = im"
  "angle (write_frame b t (i, im, a)) = a"
  "filepath (write_frame b t (i, im, a)) = path_join t (file_name b i a)"
  by (simp_all add: write_frame_def)

lemma map_fst_zip_min: "map fst (zip xs ys) = take (min (length xs) (length ys)) xs"
  by (induction xs ys rule: list_induct2') auto

lemma map_snd_zip_min: "map snd (zip xs ys) = take (min (length xs) (length ys)) ys"
  by (induction xs ys rule: list_induct2') auto

lemma written_fields:
  fixes b t :: string and mrc_data :: "'img list" and order :: "nat list"
    and angles :: "pyfloat list"
  assumes "length order = length angles"
  defines "outs \<equiv> map (write_frame b t) (zip order (zip mrc_data angles))"
  defines "n \<equiv> min (length mrc_data) (length angles)"
  shows "length outs = n"
    and "map order_idx outs = take n order"
    and "map image_arr outs = take n mrc_data"
    and "map angle outs = take n angles"
proof -
  have o: "map order_idx outs = map fst (zip order (zip mrc_data angles))"
    unfolding outs_def by (auto simp: write_frame_fields)
  have i: "map image_arr outs = map fst (map snd (zip order (zip mrc_data angles)))"
    unfolding outs_def by (auto simp: write_frame_fields)
  have a: "map angle outs = map snd (map snd (zip order (zip mrc_data angles)))"
    unfolding outs_def by (auto simp: write_frame_fields)
  show "length outs = n"
    unfolding outs_def n_def using assms(1) by simp
  show "map order_idx outs = take n order"
    unfolding o map_fst_zip_min n_def using assms(1) by (simp add: min.commute min.left_commute)
  show "map image_arr outs = take n mrc_data"
    unfolding i map_snd_zip_min map_fst_zip_min n_def take_map [symmetric]
    using assms(1) by (simp add: take_map map_fst_zip_min min.commute min.left_commute)
  show "map angle outs = take n angles"
    unfolding a map_snd_zip_min n_def take_map [symmetric]
    using assms(1) by (simp add: take_map map_snd_zip_min min.commute min.left_commute)
qed


section \<open>The variables after the first loop\<close>

lemma chain_distinct: "distinct chain"
  by (simp add: chain_def start_angle_re_def step_re_def step_high_re_def min_angle_re_def max_angle_re_def)

lemma read_meta_line_var:
  assumes "read_meta_line vars line = Inr vars'" and "p \<in> set chain"
  shows "var_of p vars' =
           (case branch_taken line of
              None \<Rightarrow> var_of p vars
            | Some (q, g) \<Rightarrow> if q = p then py_float g else var_of p vars)"
proof -
  have d: "start_angle_re \<noteq> step_re" "start_angle_re \<noteq> step_high_re" "start_angle_re \<noteq> min_angle_re"
    "start_angle_re \<noteq> max_angle_re" "step_re \<noteq> step_high_re" "step_re \<noteq> min_angle_re"
    "step_re \<noteq> max_angle_re" "step_high_re \<noteq> min_angle_re" "step_high_re \<noteq> max_angle_re"
    "min_angle_re \<noteq> max_angle_re"
    using chain_distinct by (auto simp: chain_def)
  from assms(2) consider "p = start_angle_re" | "p = step_re" | "p = step_high_re"
    | "p = min_angle_re" | "p = max_angle_re"
    by (auto simp: chain_def)
  then show ?thesis
  proof cases
    case 1
    then show ?thesis using assms(1) d
      by (auto simp: read_meta_line_def branch_taken_def chain_def var_of_def to_float_def
          split: option.splits)
  next
    case 2
    then show ?thesis using assms(1) d
      by (auto simp: read_meta_line_def branch_taken_def chain_def var_of_def to_float_def
          split: option.splits)
  next
    case 3
    then show ?thesis using assms(1) d
      by (auto simp: read_meta_line_def branch_taken_def chain_def var_of_def to_float_def
          split: option.splits)
  next
    case 4
    then show ?thesis using assms(1) d
      by (auto simp: read_meta_line_def branch_taken_def chain_def var_of_def to_float_def
          split: option.splits)
  next
    case 5
    then show ?thesis using assms(1) d
      by (auto simp: read_meta_line_def branch_taken_def chain_def var_of_def to_float_def
          split: option.splits)
  qed
qed

lemma branch_taken_chain: "branch_taken line = Some (p, g) \<Longrightarrow> p \<in> set chain"
proof -
  have "\<And>ps. first_match ps line = Some (p, g) \<Longrightarrow> p \<in> set ps"
  proof -
    fix ps show "first_match ps line = Some (p, g) \<Longrightarrow> p \<in> set ps"
      by (induction ps) (auto split: option.splits)
  qed
  then show "branch_taken line = Some (p, g) \<Longrightarrow> p \<in> set chain"
    by (simp add: branch_taken_def)
qed

lemma branch_taken_start:
  "branch_taken line = Some (start_angle_re, g) \<longleftrightarrow> re_search start_angle_re line = Some g"
proof -
  have d: "start_angle_re \<noteq> step_re" "start_angle_re \<noteq> step_high_re"
    "start_angle_re \<noteq> min_angle_re" "start_angle_re \<noteq> max_angle_re"
    using chain_distinct by (auto simp: chain_def)
  show ?thesis
    using d by (auto simp: branch_taken_def chain_def split: option.splits)
qed

lemma read_meta_append:
  "read_meta vars (xs @ ys) =
     (case read_meta vars xs of Inl e \<Rightarrow> Inl e | Inr v \<Rightarrow> read_meta v ys)"
  by (induction xs arbitrary: vars) (auto split: sum.splits)

lemma read_meta_untouched:
  assumes "read_meta vars ls = Inr vars'" and "p \<in> set chain"
    and "\<forall>l\<in>set ls. \<forall>h. branch_taken l \<noteq> Some (p, h)"
  shows "var_of p vars' = var_of p vars"
  using assms
proof (induction ls arbitrary: vars)
  case Nil
  then show ?case by simp
next
  case (Cons l ls)
  from Cons.prems(1) obtain v1 where l: "read_meta_line vars l = Inr v1"
    and r: "read_meta v1 ls = Inr vars'"
    by (auto split: sum.splits)
  have "var_of p v1 = var_of p vars"
    using read_meta_line_var [OF l Cons.prems(2)] Cons.prems(3)
    by (auto split: option.splits)
  moreover have "var_of p vars' = var_of p v1"
    using Cons.IH [OF r Cons.prems(2)] Cons.prems(3) by simp
  ultimately show ?case by simp
qed

lemma read_meta_last:
  assumes "branch_taken line = Some (p, g)"
    and "\<forall>l\<in>set after. \<forall>h. branch_taken l \<noteq> Some (p, h)"
    and "read_meta vars0 (before @ line # after) = Inr vars"
  shows "var_of p vars = py_float g"
proof -
  have p: "p \<in> set chain" using assms(1) by (rule branch_taken_chain)
  from assms(3) obtain v1 v2 where "read_meta vars0 before = Inr v1"
    and l: "read_meta_line v1 line = Inr v2" and r: "read_meta v2 after = Inr vars"
    by (auto simp: read_meta_append split: sum.splits)
  have "var_of p v2 = py_float g"
    using read_meta_line_var [OF l p] assms(1) by simp
  moreover have "var_of p vars = var_of p v2"
    using r p assms(2) by (rule read_meta_untouched)
  ultimately show ?thesis by simp
qed


section \<open>Digits and file names\<close>

lemma digit_char_digit: "d < 10 \<Longrightarrow> is_digit (digit_char d)"
proof -
  assume "d < 10"
  then have "nat d < length ''0123456789''" by simp
  then have "''0123456789'' ! nat d \<in> set ''0123456789''" by (rule nth_mem)
  then show ?thesis by (simp only: digit_char_def is_digit_def)
qed

lemma dec_digits_digits: "\<forall>c\<in>set (dec_digits n). is_digit c"
proof (induction n rule: dec_digits.induct)
  case (1 n)
  show ?case
  proof (cases "n < 10")
    case True
    then show ?thesis by (subst dec_digits.simps) (simp add: digit_char_digit)
  next
    case False
    have "n mod 10 < 10" by simp
    then have "is_digit (digit_char (n mod 10))" by (rule digit_char_digit)
    then show ?thesis using False 1 by (subst dec_digits.simps) simp
  qed
qed

lemma dec_digits_ne: "dec_digits n \<noteq> []"
  by (subst dec_digits.simps) simp

lemma digit_val_char:
  assumes "0 \<le> d" and "d < 10"
  shows "digit_val (digit_char d) = d"
proof -
  from assms have "d = 0 \<or> d = 1 \<or> d = 2 \<or> d = 3 \<or> d = 4 \<or> d = 5 \<or> d = 6 \<or> d = 7 \<or> d = 8 \<or> d = 9"
    by arith
  then show ?thesis
    by (elim disjE) (simp_all add: digit_val_def digit_char_def)
qed

lemma digits_val_snoc: "digits_val (xs @ [c]) = 10 * digits_val xs + digit_val c"
  by (simp add: digits_val_def)

lemma digits_val_dec: "0 \<le> n \<Longrightarrow> digits_val (dec_digits n) = n"
proof (induction n rule: dec_digits.induct)
  case (1 n)
  show ?case
  proof (cases "n < 10")
    case True
    then show ?thesis using "1.prems"
      by (subst dec_digits.simps) (simp add: digits_val_def digit_val_char)
  next
    case False
    have m: "digit_val (digit_char (n mod 10)) = n mod 10"
      by (rule digit_val_char) simp_all
    have "digits_val (dec_digits (n div 10)) = n div 10"
      using False "1.prems" by (intro "1.IH") simp_all
    then show ?thesis using False m
      by (subst dec_digits.simps) (simp add: digits_val_snoc)
  qed
qed

lemma digits_val_zeros: "digits_val (replicate k CHR ''0'' @ ds) = digits_val ds"
proof (induction k)
  case 0
  then show ?case by simp
next
  case (Suc k)
  have "digits_val (CHR ''0'' # xs) = digits_val xs" for xs
    by (simp add: digits_val_def digit_val_def)
  then show ?case using Suc by simp
qed

lemma pad3_val: "digits_val (pad3 n) = int n"
proof -
  have "digits_val (pad3 n) = digits_val (dec_digits (int n))"
    unfolding pad3_def Let_def by (rule digits_val_zeros)
  also have "\<dots> = int n"
    by (rule digits_val_dec) simp
  finally show ?thesis .
qed

lemma pad3_inj:
  assumes "pad3 m = pad3 n"
  shows "m = n"
proof -
  have "int m = digits_val (pad3 m)" by (simp only: pad3_val)
  also have "\<dots> = digits_val (pad3 n)" by (simp only: assms)
  also have "\<dots> = int n" by (simp only: pad3_val)
  finally show ?thesis by simp
qed

lemma pad3_digits: "\<forall>c\<in>set (pad3 n). is_digit c"
proof -
  have "is_digit CHR ''0''" by (simp add: is_digit_def)
  then show ?thesis using dec_digits_digits [of "int n"]
    by (auto simp: pad3_def Let_def)
qed

lemma takeWhile_run:
  assumes "\<forall>c\<in>set xs. P c" and "\<not> P y"
  shows "takeWhile P (xs @ y # ys) = xs"
  using assms by (induction xs) auto

lemma file_name_inj:
  assumes "file_name b i a = file_name b j a'"
  shows "i = j"
proof -
  have nd: "\<not> is_digit CHR ''[''" by (simp add: is_digit_def)
  from assms have e: "pad3 i @ CHR ''['' # (py_repr a @ '']_fractions.mrc'')
      = pad3 j @ CHR ''['' # (py_repr a' @ '']_fractions.mrc'')"
    by (simp add: file_name_def)
  have "takeWhile is_digit (pad3 i @ CHR ''['' # (py_repr a @ '']_fractions.mrc'')) = pad3 i"
    using pad3_digits nd by (rule takeWhile_run)
  moreover have "takeWhile is_digit (pad3 j @ CHR ''['' # (py_repr a' @ '']_fractions.mrc'')) = pad3 j"
    using pad3_digits nd by (rule takeWhile_run)
  ultimately have "pad3 i = pad3 j" using e by simp
  then show ?thesis by (rule pad3_inj)
qed

lemma file_name_hd: "file_name b i a \<noteq> [] \<and> hd (file_name b i a) = hd (b @ ''_'')"
  by (cases b) (simp_all add: file_name_def)

lemma filepath_inj:
  assumes "path_join t (file_name b i a) = path_join t (file_name b j a')"
  shows "i = j"
proof -
  have h: "hd (file_name b i a) = hd (file_name b j a')"
    by (simp add: file_name_hd)
  have "file_name b i a = file_name b j a'"
  proof (cases "hd (file_name b i a) = CHR ''/''")
    case True
    then show ?thesis using assms h file_name_hd [of b i a] file_name_hd [of b j a']
      by (simp add: path_join_def)
  next
    case False
    then show ?thesis using assms h by (simp add: path_join_def)
  qed
  then show ?thesis by (rule file_name_inj)
qed

lemma distinct_map_via:
  assumes "distinct (map f xs)" and "\<forall>x\<in>set xs. \<forall>y\<in>set xs. g x = g y \<longrightarrow> f x = f y"
  shows "distinct (map g xs)"
  using assms
proof (induction xs)
  case Nil
  then show ?case by simp
next
  case (Cons x xs)
  have fx: "f x \<notin> f ` set xs" and dx: "distinct (map f xs)"
    using Cons.prems(1) by simp_all
  have p2: "\<forall>a\<in>set xs. \<forall>b\<in>set xs. g a = g b \<longrightarrow> f a = f b"
    using Cons.prems(2) by (meson list.set_intros(2))
  have "g x \<notin> g ` set xs"
  proof
    assume "g x \<in> g ` set xs"
    then obtain y where y: "y \<in> set xs" and gy: "g x = g y" by blast
    have "f x = f y"
      using Cons.prems(2) y gy by (meson list.set_intros)
    then show False using fx y by blast
  qed
  moreover have "distinct (map g xs)"
    using dx p2 by (rule Cons.IH)
  ultimately show ?case by simp
qed

section \<open>The angle in a file name\<close>

lemma format_repr_chars:
  assumes "ds \<noteq> []" and "\<forall>c\<in>set ds. is_digit c"
  shows "\<forall>c\<in>set (format_repr ds k). is_digit c \<or> c \<in> set ''.e-+''"
proof -
  have z: "is_digit CHR ''0''" by (simp add: is_digit_def)
  have h: "is_digit (hd ds)" using assms by (cases ds) auto
  have t: "\<forall>c\<in>set (tl ds). is_digit c" using assms by (cases ds) auto
  have tk: "\<forall>c\<in>set (take n ds). is_digit c" for n using assms(2) by (auto dest: in_set_takeD)
  have dr: "\<forall>c\<in>set (drop n ds). is_digit c" for n using assms(2) by (auto dest: in_set_dropD)
  show ?thesis
    unfolding format_repr_def Let_def
    using z h t tk dr assms(2) dec_digits_digits by (auto split: if_splits)
qed

lemma py_repr_chars: "\<forall>c\<in>set (py_repr x). is_digit c \<or> c \<in> set ''.e-+infa''"
proof (cases x)
  case (Finite m e)
  show ?thesis
  proof (cases "m = 0")
    case True
    then show ?thesis using Finite by (simp add: py_repr_def is_digit_def)
  next
    case False
    define n where "n = (if 0 \<le> e then \<bar>m\<bar> * 2 ^ nat e else \<bar>m\<bar>)"
    define d :: int where "d = (if 0 \<le> e then 1 else 2 ^ nat (- e))"
    obtain D s where Ds: "(case repr_search 17 n d (dec_exp n d) 1 of (D0, s0) \<Rightarrow> strip_zeros D0 s0) = (D, s)"
      by (cases "case repr_search 17 n d (dec_exp n d) 1 of (D0, s0) \<Rightarrow> strip_zeros D0 s0") auto
    have r: "py_repr x = (if m < 0 then ''-'' else []) @ format_repr (dec_digits D) (int (length (dec_digits D)) + s)"
      using Finite False Ds unfolding py_repr_def n_def d_def by (simp add: Let_def)
    have "\<forall>c\<in>set (format_repr (dec_digits D) (int (length (dec_digits D)) + s)). is_digit c \<or> c \<in> set ''.e-+''"
      using dec_digits_ne dec_digits_digits by (rule format_repr_chars)
    then show ?thesis unfolding r by auto
  qed
qed (simp_all add: py_repr_def is_digit_def)

lemma py_repr_no_bracket: "CHR ''['' \<notin> set (py_repr x)"
proof
  assume "CHR ''['' \<in> set (py_repr x)"
  then have "is_digit CHR ''['' \<or> CHR ''['' \<in> set ''.e-+infa''"
    using py_repr_chars by blast
  then show False by (simp add: is_digit_def)
qed

lemma embedded_angle_path:
  assumes "CHR ''['' \<notin> set r"
  shows "embedded_angle (pre @ ''['' @ r @ '']_fractions.mrc'') = r"
proof -
  have "take (length (pre @ ''['' @ r @ '']_fractions.mrc'') - length '']_fractions.mrc'')
          (pre @ ''['' @ r @ '']_fractions.mrc'') = pre @ ''['' @ r"
    by simp
  moreover have "takeWhile (\<lambda>c. c \<noteq> CHR ''['') (rev (pre @ ''['' @ r)) = rev r"
  proof -
    have "rev (pre @ ''['' @ r) = rev r @ CHR ''['' # rev pre" by simp
    moreover have "takeWhile (\<lambda>c. c \<noteq> CHR ''['') (rev r @ CHR ''['' # rev pre) = rev r"
      using assms by (intro takeWhile_run) auto
    ultimately show ?thesis by simp
  qed
  ultimately show ?thesis unfolding embedded_angle_def by simp
qed

lemma embedded_angle_filepath:
  "embedded_angle (path_join t (file_name b i a)) = py_repr a"
proof -
  have "\<exists>pre. path_join t (file_name b i a) = pre @ ''['' @ py_repr a @ '']_fractions.mrc''"
  proof (cases "file_name b i a \<noteq> [] \<and> hd (file_name b i a) = CHR ''/''")
    case True
    then have "path_join t (file_name b i a) = (b @ ''_'' @ pad3 i) @ ''['' @ py_repr a @ '']_fractions.mrc''"
      by (simp add: path_join_def file_name_def)
    then show ?thesis by blast
  next
    case False
    then have "path_join t (file_name b i a) = (t @ ''/'' @ b @ ''_'' @ pad3 i) @ ''['' @ py_repr a @ '']_fractions.mrc''"
      by (auto simp: path_join_def file_name_def)
    then show ?thesis by blast
  qed
  then obtain pre where "path_join t (file_name b i a) = pre @ ''['' @ py_repr a @ '']_fractions.mrc''"
    by blast
  then show ?thesis using embedded_angle_path [OF py_repr_no_bracket] by simp
qed

section \<open>Repeated labels in the parameters file\<close>

text \<open>
  C4, as stated, fails: with two lines that give a start tilt angle, 1.5 and then 2.5, the
  variable holds 2.5 after the loop, the value of the later line.
\<close>

theorem first_occurrence_not_kept:
  "map_sum id start_angle
     (read_meta unbound [''Start tilt angle = 1.5'' @ [CHR 0x0A], ''Start tilt angle = 2.5'' @ [CHR 0x0A]])
     = Inr (Some (Finite 5 (- 1)))
   \<and> py_float ''2.5'' = Some (Finite 5 (- 1))
   \<and> py_float ''1.5'' = Some (Finite 3 (- 1))"
  by code_simp

text \<open>
  C4, amended. Each line takes at most one branch of the chain, and the branch assigns
  its variable anew: after the loop a variable holds the float of the numeric match of the
  last line that took its branch, whatever earlier lines assigned.
\<close>

theorem last_occurrence_kept:
  assumes "branch_taken line = Some (p, g)"
    and "\<forall>l\<in>set after. \<forall>h. branch_taken l \<noteq> Some (p, h)"
  shows "\<exists>vars v. read_meta vars0 (before @ line # after) = Inr vars
           \<and> py_float g = Some v \<and> var_of p vars = Some v"
proof -
  obtain vars where r: "read_meta vars0 (before @ line # after) = Inr vars"
    using read_meta_total by blast
  have "p \<in> set chain" using assms(1) by (rule branch_taken_chain)
  have "\<exists>q. re_search q line = Some g"
  proof -
    have "\<And>ps. first_match ps line = Some (p, g) \<Longrightarrow> \<exists>q. re_search q line = Some g"
    proof -
      fix ps show "first_match ps line = Some (p, g) \<Longrightarrow> \<exists>q. re_search q line = Some g"
        by (induction ps) (auto split: option.splits)
    qed
    then show ?thesis using assms(1) by (simp add: branch_taken_def)
  qed
  then obtain v where v: "py_float g = Some v"
    using re_search_float by (fastforce simp: to_float_def split: option.splits)
  have "var_of p vars = py_float g"
    using assms r by (rule read_meta_last)
  then show ?thesis using r v by simp
qed

theorem last_occurrence_kept_witness:
  "branch_taken (''Start tilt angle = 2.5'' @ [CHR 0x0A]) = Some (start_angle_re, ''2.5'')
   \<and> branch_taken (''Low tilt step 3.0'' @ [CHR 0x0A]) = Some (step_re, ''3.0'')
   \<and> step_re \<noteq> start_angle_re
   \<and> (\<exists>vars. read_meta unbound ([''Start tilt angle = 1.5'' @ [CHR 0x0A]]
          @ (''Start tilt angle = 2.5'' @ [CHR 0x0A]) # [''Low tilt step 3.0'' @ [CHR 0x0A]]) = Inr vars
        \<and> var_of start_angle_re vars = Some (Finite 5 (- 1)))"
proof -
  have 1: "branch_taken (''Start tilt angle = 2.5'' @ [CHR 0x0A]) = Some (start_angle_re, ''2.5'')"
    by code_simp
  have b: "branch_taken (''Low tilt step 3.0'' @ [CHR 0x0A]) = Some (step_re, ''3.0'')"
    by code_simp
  have n: "step_re \<noteq> start_angle_re"
    by code_simp
  from b n have 2: "\<forall>l\<in>set [''Low tilt step 3.0'' @ [CHR 0x0A]]. \<forall>h. branch_taken l \<noteq> Some (start_angle_re, h)"
    by simp
  have 3: "py_float ''2.5'' = Some (Finite 5 (- 1))"
    by code_simp
  show ?thesis
    using 1 b n 3 last_occurrence_kept [OF 1 2, of unbound "[''Start tilt angle = 1.5'' @ [CHR 0x0A]]"]
    by auto
qed

section \<open>An empty angle list\<close>



section \<open>A value written without a fractional part\<close>



section \<open>The pivot lookup\<close>

text \<open>
  C2, as stated, fails: the start angle is not rounded. With \<open>3.45\<close> in the parameters
  file and \<open>3.5\<close> in the angle list, \<open>start_angle\<close> is the float 3.45, the list is
  \<open>[3.5]\<close>, and \<open>angles.index\<close> raises.
\<close>

theorem start_angle_not_rounded:
  "split_mrc [0 :: nat] [''Start tilt angle = 3.45'' @ [CHR 0x0A]] [''3.5'' @ [CHR 0x0A]]
     ''tomo_TS_000'' ''out'' = Inl ValueError_index
   \<and> map_sum id start_angle (read_meta unbound [''Start tilt angle = 3.45'' @ [CHR 0x0A]])
       = Inr (Some (Finite 3884354678607053 (- 50)))
   \<and> parse_angles [''3.5'' @ [CHR 0x0A]] = Inr [Finite 7 (- 1)]"
  by code_simp


text \<open>
  C2, amended. The start angle is the float of the text matched on the last line that gives
  one, as it is; only the angles of the list are rounded to one decimal place. The lookup
  returns the index of the first angle of the list equal to that start angle, and the
  call raises the \<open>ValueError\<close> of \<open>angles.index\<close> when there is none.
\<close>

theorem pivot_lookup:
  assumes "re_search start_angle_re line = Some g"
    and "\<forall>l\<in>set after. re_search start_angle_re l = None"
    and "parse_angles tilt_lines = Inr angles"
    and "mrc_data \<noteq> []"
  shows "\<exists>sa. py_float g = Some sa
           \<and> split_mrc mrc_data (before @ line # after) tilt_lines b t =
               (case list_index angles sa of
                  None \<Rightarrow> Inl ValueError_index
                | Some i \<Rightarrow>
                    Inr (map (write_frame b t)
                          (zip (order_list (i + 1) (length angles)) (zip mrc_data angles))))
           \<and> (\<forall>i. list_index angles sa = Some i \<longleftrightarrow>
                  i < length angles \<and> py_eq (angles ! i) sa \<and> (\<forall>j<i. \<not> py_eq (angles ! j) sa))
           \<and> (list_index angles sa = None \<longleftrightarrow> (\<forall>a\<in>set angles. \<not> py_eq a sa))
           \<and> split_mrc mrc_data [''Start tilt angle = 3.45'' @ [CHR 0x0A]] [''3.5'' @ [CHR 0x0A]] b t
               = Inl ValueError_index"
proof -
  obtain vars where r: "read_meta unbound (before @ line # after) = Inr vars"
    using read_meta_total by blast
  have bt: "branch_taken line = Some (start_angle_re, g)"
    using assms(1) by (simp add: branch_taken_start)
  have "var_of start_angle_re vars = py_float g"
    using bt _ r
  proof (rule read_meta_last)
    show "\<forall>l\<in>set after. \<forall>h. branch_taken l \<noteq> Some (start_angle_re, h)"
      using assms(2) by (simp add: branch_taken_start)
  qed
  then have s: "start_angle vars = py_float g"
    by (simp add: var_of_def)
  obtain sa where sa: "py_float g = Some sa"
    using re_search_float [OF assms(1)] by (auto simp: to_float_def split: option.splits)
  have e: "split_mrc mrc_data (before @ line # after) tilt_lines b t =
               (case list_index angles sa of
                  None \<Rightarrow> Inl ValueError_index
                | Some i \<Rightarrow>
                    Inr (map (write_frame b t)
                          (zip (order_list (i + 1) (length angles)) (zip mrc_data angles))))"
  proof (cases "list_index angles sa")
    case None
    then show ?thesis using r s sa assms(3,4) by (simp add: split_mrc_def)
  next
    case (Some i)
    then show ?thesis using r s sa assms(3,4) by (simp add: split_mrc_def)
  qed
  have f: "\<forall>i. list_index angles sa = Some i \<longleftrightarrow>
                  i < length angles \<and> py_eq (angles ! i) sa \<and> (\<forall>j<i. \<not> py_eq (angles ! j) sa)"
    by (simp add: list_index_Some)
  have n: "list_index angles sa = None \<longleftrightarrow> (\<forall>a\<in>set angles. \<not> py_eq a sa)"
    by (rule list_index_None)
  have rm: "read_meta unbound [''Start tilt angle = 3.45'' @ [CHR 0x0A]]
      = Inr (unbound\<lparr>start_angle := Some (Finite 3884354678607053 (- 50))\<rparr>)"
    by code_simp
  have pa: "parse_angles [''3.5'' @ [CHR 0x0A]] = Inr [Finite 7 (- 1)]"
    by code_simp
  have li: "list_index [Finite 7 (- 1)] (Finite 3884354678607053 (- 50)) = None"
    by code_simp
  have x: "split_mrc mrc_data [''Start tilt angle = 3.45'' @ [CHR 0x0A]] [''3.5'' @ [CHR 0x0A]] b t
      = Inl ValueError_index"
    unfolding split_mrc_def rm pa using li by simp
  show ?thesis
    by (intro exI [of _ sa] conjI sa e f n x)
qed


theorem pivot_lookup_witness:
  "re_search start_angle_re (''Start tilt angle = 3.5'' @ [CHR 0x0A]) = Some ''3.5''
   \<and> re_search start_angle_re (''Low tilt step = 2.0'' @ [CHR 0x0A]) = None
   \<and> parse_angles [''0.0'' @ [CHR 0x0A], ''3.45'' @ [CHR 0x0A], ''3.5'' @ [CHR 0x0A]]
       = Inr [Finite 0 0, Finite 7 (- 1), Finite 7 (- 1)]
   \<and> py_float ''3.5'' = Some (Finite 7 (- 1))
   \<and> list_index [Finite 0 0, Finite 7 (- 1), Finite 7 (- 1)] (Finite 7 (- 1)) = Some 1
   \<and> map order_idx (files_written (split_mrc [10, 11, 12 :: nat]
        ([] @ (''Start tilt angle = 3.5'' @ [CHR 0x0A]) # [''Low tilt step = 2.0'' @ [CHR 0x0A]])
        [''0.0'' @ [CHR 0x0A], ''3.45'' @ [CHR 0x0A], ''3.5'' @ [CHR 0x0A]] ''tomo_TS_000'' ''out''))
       = [2, 0, 1]"
proof -
  have 1: "re_search start_angle_re (''Start tilt angle = 3.5'' @ [CHR 0x0A]) = Some ''3.5''"
    by code_simp
  have 2: "\<forall>l\<in>set [''Low tilt step = 2.0'' @ [CHR 0x0A]]. re_search start_angle_re l = None"
    by code_simp
  have 3: "parse_angles [''0.0'' @ [CHR 0x0A], ''3.45'' @ [CHR 0x0A], ''3.5'' @ [CHR 0x0A]]
       = Inr [Finite 0 0, Finite 7 (- 1), Finite 7 (- 1)]"
    by code_simp
  have 4: "[10, 11, 12 :: nat] \<noteq> []"
    by simp
  have 5: "py_float ''3.5'' = Some (Finite 7 (- 1))"
    by code_simp
  have 6: "list_index [Finite 0 0, Finite 7 (- 1), Finite 7 (- 1)] (Finite 7 (- 1)) = Some 1"
    by code_simp
  have 7: "map order_idx (map (write_frame ''tomo_TS_000'' ''out'')
             (zip (order_list (1 + 1) (length [Finite 0 0, Finite 7 (- 1), Finite 7 (- 1)]))
                (zip [10, 11, 12 :: nat] [Finite 0 0, Finite 7 (- 1), Finite 7 (- 1)]))) = [2, 0, 1]"
    by code_simp
  from pivot_lookup [OF 1 2 3 4, of "[]" "''tomo_TS_000''" "''out''"]
  have "split_mrc [10, 11, 12 :: nat]
        ([] @ (''Start tilt angle = 3.5'' @ [CHR 0x0A]) # [''Low tilt step = 2.0'' @ [CHR 0x0A]])
        [''0.0'' @ [CHR 0x0A], ''3.45'' @ [CHR 0x0A], ''3.5'' @ [CHR 0x0A]] ''tomo_TS_000'' ''out''
      = Inr (map (write_frame ''tomo_TS_000'' ''out'')
             (zip (order_list (1 + 1) (length [Finite 0 0, Finite 7 (- 1), Finite 7 (- 1)]))
                (zip [10, 11, 12 :: nat] [Finite 0 0, Finite 7 (- 1), Finite 7 (- 1)])))"
    using 5 6 by auto
  then show ?thesis
    using 1 2 3 5 6 7 by (simp add: files_written_def)
qed


section \<open>A stack and an angle list of different lengths\<close>

text \<open>
  C3, as stated, fails: with four angles and a stack of five frames the call raises
  nothing and writes four files.
\<close>

theorem mismatch_truncates_example:
  "map filepath (files_written (split_mrc [10, 11, 12, 13, 14 :: nat]
       [''Start tilt angle = 0.0'' @ [CHR 0x0A]]
       [''0.0'' @ [CHR 0x0A], ''-10.0'' @ [CHR 0x0A], ''-20.0'' @ [CHR 0x0A], ''10.0'' @ [CHR 0x0A]]
       ''tomo_TS_000'' ''out''))
     = [''out/tomo_TS_000_001[0.0]_fractions.mrc'', ''out/tomo_TS_000_002[-10.0]_fractions.mrc'',
        ''out/tomo_TS_000_003[-20.0]_fractions.mrc'', ''out/tomo_TS_000_000[10.0]_fractions.mrc'']
   \<and> isl (split_mrc [10, 11, 12, 13, 14 :: nat]
       [''Start tilt angle = 0.0'' @ [CHR 0x0A]]
       [''0.0'' @ [CHR 0x0A], ''-10.0'' @ [CHR 0x0A], ''-20.0'' @ [CHR 0x0A], ''10.0'' @ [CHR 0x0A]]
       ''tomo_TS_000'' ''out'') = False"
  by code_simp


text \<open>
  C3, amended. No check compares the two lengths. When the pivot is found and the stack
  has at least one frame, the call succeeds whatever the lengths are, and writes as many
  files as the shorter of the stack and the angle list has elements: the first frames,
  with the first angles and the first indices of the order.
\<close>

theorem mismatch_truncates:
  assumes "read_meta unbound meta_lines = Inr vars" and "start_angle vars = Some sa"
    and "parse_angles tilt_lines = Inr angles" and "list_index angles sa = Some i"
    and "mrc_data \<noteq> []"
  shows "\<exists>outs. split_mrc mrc_data meta_lines tilt_lines b t = Inr outs
           \<and> length outs = min (length mrc_data) (length angles)
           \<and> map order_idx outs = take (length outs) (order_list (i + 1) (length angles))
           \<and> map image_arr outs = take (length outs) mrc_data
           \<and> map angle outs = take (length outs) angles"
proof -
  let ?order = "order_list (i + 1) (length angles)"
  let ?outs = "map (write_frame b t) (zip ?order (zip mrc_data angles))"
  have s: "split_mrc mrc_data meta_lines tilt_lines b t = Inr ?outs"
    using assms by (simp add: split_mrc_def)
  have "i < length angles" using assms(4) by (rule list_index_less)
  then have l: "length ?order = length angles"
    by (simp add: length_order_list)
  show ?thesis
    using s written_fields [OF l, of b t mrc_data] by simp
qed


theorem mismatch_truncates_witness:
  "(\<exists>vars. read_meta unbound [''Start tilt angle = 0.0'' @ [CHR 0x0A]] = Inr vars
       \<and> start_angle vars = Some (Finite 0 0))
   \<and> parse_angles [''0.0'' @ [CHR 0x0A], ''-10.0'' @ [CHR 0x0A], ''-20.0'' @ [CHR 0x0A], ''10.0'' @ [CHR 0x0A]]
       = Inr [Finite 0 0, Finite (- 5) 1, Finite (- 5) 2, Finite 5 1]
   \<and> list_index [Finite 0 0, Finite (- 5) 1, Finite (- 5) 2, Finite 5 1] (Finite 0 0) = Some 0
   \<and> (\<exists>outs. split_mrc [10, 11, 12, 13, 14 :: nat] [''Start tilt angle = 0.0'' @ [CHR 0x0A]]
         [''0.0'' @ [CHR 0x0A], ''-10.0'' @ [CHR 0x0A], ''-20.0'' @ [CHR 0x0A], ''10.0'' @ [CHR 0x0A]]
         ''tomo_TS_000'' ''out'' = Inr outs
       \<and> length outs = 4 \<and> map image_arr outs = [10, 11, 12, 13])"
proof -
  have 1: "read_meta unbound [''Start tilt angle = 0.0'' @ [CHR 0x0A]]
      = Inr (unbound\<lparr>start_angle := Some (Finite 0 0)\<rparr>)"
    by code_simp
  have 2: "start_angle (unbound\<lparr>start_angle := Some (Finite 0 0)\<rparr>) = Some (Finite 0 0)"
    by simp
  have 3: "parse_angles [''0.0'' @ [CHR 0x0A], ''-10.0'' @ [CHR 0x0A], ''-20.0'' @ [CHR 0x0A], ''10.0'' @ [CHR 0x0A]]
       = Inr [Finite 0 0, Finite (- 5) 1, Finite (- 5) 2, Finite 5 1]"
    by code_simp
  have 4: "list_index [Finite 0 0, Finite (- 5) 1, Finite (- 5) 2, Finite 5 1] (Finite 0 0) = Some 0"
    by code_simp
  have 5: "[10, 11, 12, 13, 14 :: nat] \<noteq> []"
    by simp
  show ?thesis
    using 1 2 3 4 mismatch_truncates [OF 1 2 3 4 5, of "''tomo_TS_000''" "''out''"]
    by auto
qed

section \<open>The files of one call\<close>

lemma split_mrc_matched:
  assumes "parse_angles tilt_lines = Inr angles" and "length angles = length mrc_data"
    and "split_mrc mrc_data meta_lines tilt_lines b t = Inr outs"
  shows "\<exists>i<length angles.
           outs = map (write_frame b t)
                    (zip (order_list (i + 1) (length angles)) (zip mrc_data angles))
           \<and> length outs = length angles
           \<and> map order_idx outs = order_list (i + 1) (length angles)
           \<and> map image_arr outs = mrc_data
           \<and> map angle outs = angles"
proof -
  from assms(3) obtain vars angles' sa i where
    pa: "parse_angles tilt_lines = Inr angles'" and li: "list_index angles' sa = Some i"
    and o: "outs = map (write_frame b t)
                    (zip (order_list (i + 1) (length angles')) (zip mrc_data angles'))"
    unfolding split_mrc_Inr by blast
  have eq: "angles' = angles" using pa assms(1) by simp
  have i: "i < length angles" using li eq by (simp add: list_index_less)
  then have l: "length (order_list (i + 1) (length angles)) = length angles"
    by (simp add: length_order_list)
  have f: "length outs = min (length mrc_data) (length angles)"
    "map order_idx outs = take (min (length mrc_data) (length angles)) (order_list (i + 1) (length angles))"
    "map image_arr outs = take (min (length mrc_data) (length angles)) mrc_data"
    "map angle outs = take (min (length mrc_data) (length angles)) angles"
    unfolding o eq using written_fields [OF l, of b t mrc_data] by simp_all
  have m: "min (length mrc_data) (length angles) = length angles"
    using assms(2) by simp
  have t1: "take (length angles) (order_list (i + 1) (length angles)) = order_list (i + 1) (length angles)"
    using l by simp
  have t2: "take (length angles) mrc_data = mrc_data"
    using assms(2) by simp
  have t3: "take (length angles) angles = angles"
    by simp
  have g: "length outs = length angles"
    "map order_idx outs = order_list (i + 1) (length angles)"
    "map image_arr outs = mrc_data"
    "map angle outs = angles"
    using f unfolding m t1 t2 t3 by blast+
  show ?thesis
    using i o [unfolded eq] g by blast
qed

lemma written_filepath:
  assumes "split_mrc mrc_data meta_lines tilt_lines b t = Inr outs"
  shows "map filepath outs = map (\<lambda>x. path_join t (file_name b (order_idx x) (angle x))) outs"
proof -
  from assms obtain order angles where
    "outs = map (write_frame b t) (zip order (zip mrc_data angles))"
    unfolding split_mrc_Inr by blast
  then show ?thesis by (auto simp: write_frame_fields)
qed

text \<open>
  C7. When the angle list has as many angles as the stack has frames and the call
  succeeds, the angles attached to the files written are the parsed, rounded angles of
  the list, each once (as multisets, and in fact in the same order), and the text each
  path carries between its brackets is the printed form of that angle: no angle is lost,
  repeated or changed.
\<close>

theorem output_angles_roundtrip:
  assumes "parse_angles tilt_lines = Inr angles" and "length angles = length mrc_data"
    and "split_mrc mrc_data meta_lines tilt_lines b t = Inr outs"
  shows "mset (map angle outs) = mset angles
         \<and> mset (map (\<lambda>x. embedded_angle (filepath x)) outs) = mset (map py_repr angles)
         \<and> map angle outs = angles
         \<and> map (\<lambda>x. embedded_angle (filepath x)) outs = map py_repr angles"
proof -
  have a: "map angle outs = angles"
    using split_mrc_matched [OF assms] by blast
  have "map (\<lambda>x. embedded_angle (filepath x)) outs = map embedded_angle (map filepath outs)"
    by simp
  also have "\<dots> = map embedded_angle
      (map (\<lambda>x. path_join t (file_name b (order_idx x) (angle x))) outs)"
    by (simp only: written_filepath [OF assms(3)])
  also have "\<dots> = map (\<lambda>x. py_repr (angle x)) outs"
    by (simp add: embedded_angle_filepath)
  also have "\<dots> = map py_repr (map angle outs)"
    by simp
  finally have e: "map (\<lambda>x. embedded_angle (filepath x)) outs = map py_repr angles"
    unfolding a .
  show ?thesis
    unfolding a e by simp
qed

theorem output_angles_roundtrip_witness:
  "parse_angles [''0.0'' @ [CHR 0x0A], ''-10.04'' @ [CHR 0x0A], ''10.0'' @ [CHR 0x0A]]
     = Inr [Finite 0 0, Finite (- 5) 1, Finite 5 1]
   \<and> length [Finite 0 0, Finite (- 5) 1, Finite 5 1] = length [20, 21, 22 :: nat]
   \<and> (\<exists>outs. split_mrc [20, 21, 22 :: nat] [''Start tilt angle = 0.0'' @ [CHR 0x0A]]
         [''0.0'' @ [CHR 0x0A], ''-10.04'' @ [CHR 0x0A], ''10.0'' @ [CHR 0x0A]] ''tomo_TS_000'' ''out''
         = Inr outs
       \<and> map (\<lambda>x. embedded_angle (filepath x)) outs = [''0.0'', ''-10.0'', ''10.0'']
       \<and> mset (map angle outs) = mset [Finite 0 0, Finite (- 5) 1, Finite 5 1])"
proof -
  have 1: "parse_angles [''0.0'' @ [CHR 0x0A], ''-10.04'' @ [CHR 0x0A], ''10.0'' @ [CHR 0x0A]]
     = Inr [Finite 0 0, Finite (- 5) 1, Finite 5 1]"
    by code_simp
  have 2: "length [Finite 0 0, Finite (- 5) 1, Finite 5 1] = length [20, 21, 22 :: nat]"
    by simp
  have 3: "split_mrc [20, 21, 22 :: nat] [''Start tilt angle = 0.0'' @ [CHR 0x0A]]
         [''0.0'' @ [CHR 0x0A], ''-10.04'' @ [CHR 0x0A], ''10.0'' @ [CHR 0x0A]] ''tomo_TS_000'' ''out''
       = Inr (map (write_frame ''tomo_TS_000'' ''out'')
           [(1, 20, Finite 0 0), (2, 21, Finite (- 5) 1), (0, 22, Finite 5 1)])"
    by code_simp
  have 4: "map py_repr [Finite 0 0, Finite (- 5) 1, Finite 5 1] = [''0.0'', ''-10.0'', ''10.0'']"
    by code_simp
  show ?thesis
    using 1 2 3 4 output_angles_roundtrip [OF 1 2 3] by simp
qed

text \<open>
  C9. When the angle list has as many angles as the stack has frames and the call
  succeeds, it writes one file per angle, the order indices of the files are the numbers
  \<open>0 ..< N\<close>, each once, and the paths of the files are pairwise different: no file of a
  series is written twice.
\<close>

theorem output_paths_distinct:
  assumes "parse_angles tilt_lines = Inr angles" and "length angles = length mrc_data"
    and "split_mrc mrc_data meta_lines tilt_lines b t = Inr outs"
  shows "length outs = length angles
         \<and> distinct (map filepath outs)
         \<and> distinct (map order_idx outs)
         \<and> mset (map order_idx outs) = mset [0..<length angles]"
proof -
  from split_mrc_matched [OF assms] obtain i where i: "i < length angles"
    and l: "length outs = length angles"
    and o: "map order_idx outs = order_list (i + 1) (length angles)"
    by blast
  have le: "i + 1 \<le> length angles" using i by simp
  have d: "distinct (map order_idx outs)"
    unfolding o using le by (rule distinct_order_list)
  have m: "mset (map order_idx outs) = mset [0..<length angles]"
    unfolding o using le by (rule mset_order_list)
  let ?p = "\<lambda>x. path_join t (file_name b (order_idx x) (angle x))"
  have "distinct (map ?p outs)"
    using d
  proof (rule distinct_map_via)
    show "\<forall>x\<in>set outs. \<forall>y\<in>set outs. ?p x = ?p y \<longrightarrow> order_idx x = order_idx y"
      using filepath_inj by blast
  qed
  then have p: "distinct (map filepath outs)"
    by (simp only: written_filepath [OF assms(3)])
  show ?thesis using l p d m by blast
qed

theorem output_paths_distinct_witness:
  "parse_angles [''-5.0'' @ [CHR 0x0A], ''0.0'' @ [CHR 0x0A], ''0.0'' @ [CHR 0x0A], ''5.0'' @ [CHR 0x0A]]
     = Inr [Finite (- 5) 0, Finite 0 0, Finite 0 0, Finite 5 0]
   \<and> length [Finite (- 5) 0, Finite 0 0, Finite 0 0, Finite 5 0] = length [30, 31, 32, 33 :: nat]
   \<and> (\<exists>outs. split_mrc [30, 31, 32, 33 :: nat] [''Start tilt angle = 0.0'' @ [CHR 0x0A]]
         [''-5.0'' @ [CHR 0x0A], ''0.0'' @ [CHR 0x0A], ''0.0'' @ [CHR 0x0A], ''5.0'' @ [CHR 0x0A]]
         ''tomo_TS_000'' ''out'' = Inr outs
       \<and> map filepath outs =
           [''out/tomo_TS_000_002[-5.0]_fractions.mrc'', ''out/tomo_TS_000_003[0.0]_fractions.mrc'',
            ''out/tomo_TS_000_000[0.0]_fractions.mrc'', ''out/tomo_TS_000_001[5.0]_fractions.mrc'']
       \<and> distinct (map filepath outs))"
proof -
  have 1: "parse_angles [''-5.0'' @ [CHR 0x0A], ''0.0'' @ [CHR 0x0A], ''0.0'' @ [CHR 0x0A], ''5.0'' @ [CHR 0x0A]]
     = Inr [Finite (- 5) 0, Finite 0 0, Finite 0 0, Finite 5 0]"
    by code_simp
  have 2: "length [Finite (- 5) 0, Finite 0 0, Finite 0 0, Finite 5 0] = length [30, 31, 32, 33 :: nat]"
    by simp
  have 3: "split_mrc [30, 31, 32, 33 :: nat] [''Start tilt angle = 0.0'' @ [CHR 0x0A]]
         [''-5.0'' @ [CHR 0x0A], ''0.0'' @ [CHR 0x0A], ''0.0'' @ [CHR 0x0A], ''5.0'' @ [CHR 0x0A]]
         ''tomo_TS_000'' ''out''
       = Inr (map (write_frame ''tomo_TS_000'' ''out'')
           [(2, 30, Finite (- 5) 0), (3, 31, Finite 0 0), (0, 32, Finite 0 0), (1, 33, Finite 5 0)])"
    by code_simp
  have 4: "map filepath (map (write_frame ''tomo_TS_000'' ''out'')
           [(2, 30 :: nat, Finite (- 5) 0), (3, 31, Finite 0 0), (0, 32, Finite 0 0), (1, 33, Finite 5 0)])
        = [''out/tomo_TS_000_002[-5.0]_fractions.mrc'', ''out/tomo_TS_000_003[0.0]_fractions.mrc'',
            ''out/tomo_TS_000_000[0.0]_fractions.mrc'', ''out/tomo_TS_000_001[5.0]_fractions.mrc'']"
    by code_simp
  show ?thesis
    using 1 2 3 4 output_paths_distinct [OF 1 2 3] by simp
qed

section \<open>The scenario with five angles\<close>

text \<open>
  C1, as stated, fails: for the angles 0.0, -10.0, -20.0, 10.0, 20.0 and the start angle 0.0,
  no file holds frame 1 under the index 001, no file holds frame 0 under the index 004, and
  the last file written holds frame 4.
\<close>

theorem scenario_numbering_differs:
  "(1, ''out/tomo_TS_000_001[-10.0]_fractions.mrc'')
     \<notin> set (map (\<lambda>x. (image_arr x, filepath x)) (files_written (split_mrc [0, 1, 2, 3, 4 :: nat]
         [''Start tilt angle = 0.0'' @ [CHR 0x0A]]
         [''0.0'' @ [CHR 0x0A], ''-10.0'' @ [CHR 0x0A], ''-20.0'' @ [CHR 0x0A], ''10.0'' @ [CHR 0x0A],
          ''20.0'' @ [CHR 0x0A]] ''tomo_TS_000'' ''out'')))
   \<and> (0, ''out/tomo_TS_000_004[0.0]_fractions.mrc'')
     \<notin> set (map (\<lambda>x. (image_arr x, filepath x)) (files_written (split_mrc [0, 1, 2, 3, 4 :: nat]
         [''Start tilt angle = 0.0'' @ [CHR 0x0A]]
         [''0.0'' @ [CHR 0x0A], ''-10.0'' @ [CHR 0x0A], ''-20.0'' @ [CHR 0x0A], ''10.0'' @ [CHR 0x0A],
          ''20.0'' @ [CHR 0x0A]] ''tomo_TS_000'' ''out'')))
   \<and> image_arr (last (files_written (split_mrc [0, 1, 2, 3, 4 :: nat]
         [''Start tilt angle = 0.0'' @ [CHR 0x0A]]
         [''0.0'' @ [CHR 0x0A], ''-10.0'' @ [CHR 0x0A], ''-20.0'' @ [CHR 0x0A], ''10.0'' @ [CHR 0x0A],
          ''20.0'' @ [CHR 0x0A]] ''tomo_TS_000'' ''out''))) = 4"
  by code_simp

text \<open>
  C1, amended. For these angles the pivot is at index 0 and the order is 1, 2, 3, 4, 0. The
  frame stored at position \<open>i\<close> is written under the \<open>i\<close>-th index of the order with the
  \<open>i\<close>-th angle: frame 0 (the pivot, 0.0) first, as 001; frame 1 (-10.0) as 002; frame 2 as
  003; frame 3 as 004; frame 4 (20.0) last, as 000.
\<close>

theorem scenario_numbering:
  "parse_angles [''0.0'' @ [CHR 0x0A], ''-10.0'' @ [CHR 0x0A], ''-20.0'' @ [CHR 0x0A],
       ''10.0'' @ [CHR 0x0A], ''20.0'' @ [CHR 0x0A]]
     = Inr [Finite 0 0, Finite (- 5) 1, Finite (- 5) 2, Finite 5 1, Finite 5 2]
   \<and> list_index [Finite 0 0, Finite (- 5) 1, Finite (- 5) 2, Finite 5 1, Finite 5 2] (Finite 0 0) = Some 0
   \<and> order_list (0 + 1) 5 = [1, 2, 3, 4, 0]
   \<and> map (\<lambda>x. (order_idx x, image_arr x, filepath x)) (files_written (split_mrc [0, 1, 2, 3, 4 :: nat]
         [''Start tilt angle = 0.0'' @ [CHR 0x0A]]
         [''0.0'' @ [CHR 0x0A], ''-10.0'' @ [CHR 0x0A], ''-20.0'' @ [CHR 0x0A], ''10.0'' @ [CHR 0x0A],
          ''20.0'' @ [CHR 0x0A]] ''tomo_TS_000'' ''out''))
     = [(1, 0, ''out/tomo_TS_000_001[0.0]_fractions.mrc''),
        (2, 1, ''out/tomo_TS_000_002[-10.0]_fractions.mrc''),
        (3, 2, ''out/tomo_TS_000_003[-20.0]_fractions.mrc''),
        (4, 3, ''out/tomo_TS_000_004[10.0]_fractions.mrc''),
        (0, 4, ''out/tomo_TS_000_000[20.0]_fractions.mrc'')]"
  by code_simp

end
